theory Spec2Isabelle
  imports Main
begin

section \<open>Python values used by \<^verbatim>\<open>pandasgui/gui.py\<close>\<close>

text \<open>
  A Python \<^verbatim>\<open>dict\<close> keeps its keys in insertion order and holds every key once, so it
  is an association list. Assigning \<^verbatim>\<open>d[k] = v\<close> to a key that is present replaces the
  value where the key stands; a new key goes to the end.
\<close>

type_synonym ('k, 'v) dict = "('k \<times> 'v) list"

fun dict_set :: "'k \<Rightarrow> 'v \<Rightarrow> ('k, 'v) dict \<Rightarrow> ('k, 'v) dict" where
  "dict_set k v [] = [(k, v)]"
| "dict_set k v ((k', v') # rest) =
     (if k' = k then (k', v) # rest else (k', v') # dict_set k v rest)"

definition dict_keys :: "('k, 'v) dict \<Rightarrow> 'k list" where
  "dict_keys d = map fst d"

text \<open>\<^verbatim>\<open>{**a, **b}\<close>: a copy of \<^verbatim>\<open>a\<close>, then every item of \<^verbatim>\<open>b\<close> assigned in order.\<close>

definition dict_merge :: "('k, 'v) dict \<Rightarrow> ('k, 'v) dict \<Rightarrow> ('k, 'v) dict" where
  "dict_merge a b = fold (\<lambda>(k, v) d. dict_set k v d) b a"

text \<open>The decimal rendering of a non-negative \<^verbatim>\<open>int\<close> inside an f-string.\<close>

definition digit_char :: "nat \<Rightarrow> char" where
  "digit_char d = char_of (48 + d)"

fun str_nat :: "nat \<Rightarrow> string" where
  "str_nat n = (if n < 10 then [digit_char n] else str_nat (n div 10) @ [digit_char (n mod 10)])"

declare str_nat.simps [simp del]

text \<open>\<^verbatim>\<open>f"untitled_{untitled_number}"\<close>\<close>

definition untitled :: "nat \<Rightarrow> string" where
  "untitled n = ''untitled_'' @ str_nat n"

text \<open>The number a string of decimal digits stands for (\<^verbatim>\<open>int(s)\<close>), to tell the names apart.\<close>

definition decimal_value :: "string \<Rightarrow> nat" where
  "decimal_value s = foldl (\<lambda>a c. 10 * a + (of_char c - 48)) 0 s"

section \<open>\<^verbatim>\<open>show\<close>: names for the positional arguments\<close>

text \<open>
  Objects are compared with \<^verbatim>\<open>is\<close>, so a payload is its identity: two values of type
  \<open>'obj\<close> are equal exactly when they are the same object. The caller's local
  variables (\<^verbatim>\<open>f_locals.items()\<close>) are a dict from variable name to object.

  The inner loop of \<^verbatim>\<open>show\<close> runs over the whole scope and has no \<^verbatim>\<open>break\<close>:
  \<^verbatim>\<open>
        df_name = None
        for var_name, var_val in callers_local_vars:
            if var_val is df_object:
                df_name = var_name
  \<close>
  \<open>find_var scope obj df_name\<close> is that loop, started with the current \<^verbatim>\<open>df_name\<close>.
\<close>

fun find_var :: "(string, 'obj) dict \<Rightarrow> 'obj \<Rightarrow> string option \<Rightarrow> string option" where
  "find_var [] df_object df_name = df_name"
| "find_var ((var_name, var_val) # rest) df_object df_name =
     find_var rest df_object (if var_val = df_object then Some var_name else df_name)"

text \<open>
  The outer loop, on the pair (\<^verbatim>\<open>dataframes\<close>, \<^verbatim>\<open>untitled_number\<close>):
  \<^verbatim>\<open>
    for i, df_object in enumerate(args):
        ...
        if df_name is None:
            df_name = f"untitled_{untitled_number}"
            untitled_number += 1
        dataframes[df_name] = df_object
  \<close>
\<close>

fun show_loop ::
  "'obj list \<Rightarrow> (string, 'obj) dict \<Rightarrow> (string, 'obj) dict \<times> nat \<Rightarrow> (string, 'obj) dict \<times> nat" where
  "show_loop [] scope (dataframes, untitled_number) = (dataframes, untitled_number)"
| "show_loop (df_object # rest) scope (dataframes, untitled_number) =
     (case find_var scope df_object None of
        None \<Rightarrow>
          show_loop rest scope
            (dict_set (untitled untitled_number) df_object dataframes, untitled_number + 1)
      | Some df_name \<Rightarrow>
          show_loop rest scope (dict_set df_name df_object dataframes, untitled_number))"

text \<open>
  The value \<^verbatim>\<open>df_name\<close> has at the assignment \<^verbatim>\<open>dataframes[df_name] = df_object\<close>, for
  each positional argument in turn, when the loop starts with the given
  \<^verbatim>\<open>untitled_number\<close>.
\<close>

fun df_names :: "'obj list \<Rightarrow> (string, 'obj) dict \<Rightarrow> nat \<Rightarrow> string list" where
  "df_names [] scope untitled_number = []"
| "df_names (df_object # rest) scope untitled_number =
     (case find_var scope df_object None of
        None \<Rightarrow> untitled untitled_number # df_names rest scope (untitled_number + 1)
      | Some df_name \<Rightarrow> df_name # df_names rest scope untitled_number)"

text \<open>An argument that no variable of the scope is bound to.\<close>

definition unmatched :: "(string, 'obj) dict \<Rightarrow> 'obj \<Rightarrow> bool" where
  "unmatched scope df_object = (find_var scope df_object None = None)"

section \<open>The application store\<close>

text \<open>
  Modelled from the spec: \<^verbatim>\<open>pandasgui/store.py\<close> (\<^verbatim>\<open>PandasGuiStore\<close> with
  \<^verbatim>\<open>add_dataframe\<close>, \<^verbatim>\<open>remove_dataframe\<close>, the selection and the settings) is not
  among the sources; \<^verbatim>\<open>gui.py\<close> only calls it. The definitions of this section follow
  sections 3 and 4.2 of the specification: a Dataset Entry has a name, a payload and a
  history; the store has the entries in display order, the selected name and the
  settings.
\<close>

datatype pyval = PyNone | PyBool bool | PyInt int | PyStr string

fun truthy :: "pyval \<Rightarrow> bool" where
  "truthy PyNone = False"
| "truthy (PyBool b) = b"
| "truthy (PyInt i) = (i \<noteq> 0)"
| "truthy (PyStr s) = (s \<noteq> [])"

datatype error = NotFoundError string | KeyError string | ValueError

record 'obj pgdf =
  pgdf_name :: string
  pgdf_data :: 'obj
  pgdf_history :: "string list"

text \<open>
  Modelled from the spec: the settings surface, "a flat mapping from option name to
  value with at least" \<^verbatim>\<open>theme\<close>, \<^verbatim>\<open>style\<close> and \<^verbatim>\<open>block\<close>; any further options are in
  \<open>other_settings\<close>.
\<close>

record settings_store =
  theme_value :: pyval
  style_value :: pyval
  block_value :: pyval
  other_settings :: "(string, pyval) dict"

record 'obj store =
  entries :: "'obj pgdf list"
  selected_name :: "string option"
  store_settings :: settings_store

definition entry_names :: "'obj store \<Rightarrow> string list" where
  "entry_names st = map pgdf_name (entries st)"

definition new_entry :: "string \<Rightarrow> 'obj \<Rightarrow> 'obj pgdf" where
  "new_entry nm payload = \<lparr>pgdf_name = nm, pgdf_data = payload, pgdf_history = []\<rparr>"

text \<open>
  Modelled from the spec: \<^verbatim>\<open>add(payload, name)\<close>. A name that is present is replaced
  where it stands (payload new, history cleared); a new name is appended, and becomes
  the selection only if the store was empty.
\<close>

definition add_dataframe :: "'obj \<Rightarrow> string \<Rightarrow> 'obj store \<Rightarrow> 'obj store" where
  "add_dataframe payload nm st =
     (if nm \<in> set (entry_names st)
      then st\<lparr>entries := map (\<lambda>e. if pgdf_name e = nm then new_entry nm payload else e) (entries st)\<rparr>
      else st\<lparr>entries := entries st @ [new_entry nm payload],
              selected_name := (if entries st = [] then Some nm else selected_name st)\<rparr>)"

text \<open>The name of the entry just before \<open>nm\<close> in display order, if there is one.\<close>

fun preceding :: "string \<Rightarrow> 'obj pgdf list \<Rightarrow> string option" where
  "preceding nm [] = None"
| "preceding nm [e] = None"
| "preceding nm (e1 # e2 # rest) =
     (if pgdf_name e1 = nm then None
      else if pgdf_name e2 = nm then Some (pgdf_name e1)
      else preceding nm (e2 # rest))"

text \<open>
  Modelled from the spec: \<^verbatim>\<open>remove(name)\<close> fails with \<^verbatim>\<open>NotFoundError\<close> when the name is
  absent, before anything is changed; otherwise the entry goes, and a selection that
  pointed at it moves to the preceding entry, or to none.
\<close>

definition remove_dataframe :: "string \<Rightarrow> 'obj store \<Rightarrow> error + 'obj store" where
  "remove_dataframe nm st =
     (if nm \<notin> set (entry_names st) then Inl (NotFoundError nm)
      else Inr (st\<lparr>entries := filter (\<lambda>e. pgdf_name e \<noteq> nm) (entries st),
                   selected_name := (if selected_name st = Some nm
                                     then preceding nm (entries st)
                                     else selected_name st)\<rparr>))"

text \<open>Modelled from the spec: \<^verbatim>\<open>select(name)\<close>.\<close>

definition select_dataframe :: "string \<Rightarrow> 'obj store \<Rightarrow> error + 'obj store" where
  "select_dataframe nm st =
     (if nm \<notin> set (entry_names st) then Inl (NotFoundError nm)
      else Inr (st\<lparr>selected_name := Some nm\<rparr>))"

text \<open>
  Modelled from the spec: \<^verbatim>\<open>self.store.settings[key]\<close> followed by
  \<^verbatim>\<open>setting.value = value\<close>; an option the store does not have raises.
\<close>

definition settings_set :: "string \<Rightarrow> pyval \<Rightarrow> settings_store \<Rightarrow> error + settings_store" where
  "settings_set key v s =
     (if key = ''theme'' then Inr (s\<lparr>theme_value := v\<rparr>)
      else if key = ''style'' then Inr (s\<lparr>style_value := v\<rparr>)
      else if key = ''block'' then Inr (s\<lparr>block_value := v\<rparr>)
      else if key \<in> set (dict_keys (other_settings s))
      then Inr (s\<lparr>other_settings := dict_set key v (other_settings s)\<rparr>)
      else Inl (KeyError key))"

text \<open>
  Operations on one store, for sequences of calls. \<^verbatim>\<open>add\<close> without a name resolves it
  as \<^verbatim>\<open>show\<close> does for a single payload, from the scope given with the call. An operation
  that raises has checked its precondition before changing anything, so the store after
  it is the store before it.
\<close>

datatype 'obj store_op =
  Add 'obj "string option" "(string, 'obj) dict"
| Remove string
| Select string

definition accepted_name :: "'obj \<Rightarrow> string option \<Rightarrow> (string, 'obj) dict \<Rightarrow> string" where
  "accepted_name payload nm scope =
     (case nm of
        Some n \<Rightarrow> n
      | None \<Rightarrow> (case find_var scope payload None of Some v \<Rightarrow> v | None \<Rightarrow> untitled 1))"

fun store_step :: "'obj store_op \<Rightarrow> 'obj store \<Rightarrow> 'obj store" where
  "store_step (Add payload nm scope) st = add_dataframe payload (accepted_name payload nm scope) st"
| "store_step (Remove nm) st = (case remove_dataframe nm st of Inl e \<Rightarrow> st | Inr st' \<Rightarrow> st')"
| "store_step (Select nm) st = (case select_dataframe nm st of Inl e \<Rightarrow> st | Inr st' \<Rightarrow> st')"

text \<open>The store before the first operation and after each one.\<close>

fun store_states :: "'obj store_op list \<Rightarrow> 'obj store \<Rightarrow> 'obj store list" where
  "store_states [] st = [st]"
| "store_states (x # xs) st = st # store_states xs (store_step x st)"

definition empty_store :: "settings_store \<Rightarrow> 'obj store" where
  "empty_store s = \<lparr>entries = [], selected_name = None, store_settings = s\<rparr>"

definition selected_ok :: "'obj store \<Rightarrow> bool" where
  "selected_ok st =
     (case selected_name st of None \<Rightarrow> True | Some n \<Rightarrow> n \<in> set (entry_names st))"

section \<open>The window: \<^verbatim>\<open>PandasGui\<close>\<close>

text \<open>
  What \<^verbatim>\<open>gui.py\<close> takes from modules that are not among the sources is a parameter: the
  two style sheets \<^verbatim>\<open>qstylish.dark()\<close> and \<^verbatim>\<open>qstylish.light()\<close>, and the settings a fresh
  \<^verbatim>\<open>PandasGuiStore()\<close> starts with.
\<close>

record env =
  dark_qss :: string
  light_qss :: string
  default_settings :: settings_store

text \<open>
  A window is an object, identified by a number that no other window has. The state
  outside the windows is the module-level list \<^verbatim>\<open>refs\<close>, the supply of fresh identities
  and the trace of what the program did to the outside: warnings logged, lines printed,
  windows shown, and entries into the Qt event loop (\<^verbatim>\<open>self.app.exec_()\<close>, which returns
  only when the user interface closes).
\<close>

datatype event =
  Warning string
| Print string
| WindowShown nat
| EventLoopEntered nat

record world =
  refs :: "nat list"
  next_id :: nat
  events :: "event list"

record 'obj gui =
  gid :: nat
  store :: "'obj store"
  stylesheet :: string

definition emit :: "event \<Rightarrow> world \<Rightarrow> world" where
  "emit ev w = w\<lparr>events := events w @ [ev]\<rparr>"

definition set_theme_setting :: "pyval \<Rightarrow> 'obj gui \<Rightarrow> 'obj gui" where
  "set_theme_setting v g =
     g\<lparr>store := (store g)\<lparr>store_settings := (store_settings (store g))\<lparr>theme_value := v\<rparr>\<rparr>\<rparr>"

text \<open>
  \<^verbatim>\<open>
    def set_theme(self, name: str):
        if name == "classic":
            self.setStyleSheet("")
            self.store.settings.theme.value = 'classic'
        elif name == "dark":
            self.setStyleSheet(qstylish.dark())
            self.store.settings.theme.value = 'dark'
        elif name == "light":
            self.setStyleSheet(qstylish.light())
            self.store.settings.theme.value = 'light'
  \<close>
\<close>

definition set_theme :: "env \<Rightarrow> string \<Rightarrow> 'obj gui \<Rightarrow> 'obj gui" where
  "set_theme env nm g =
     (if nm = ''classic'' then set_theme_setting (PyStr ''classic'') (g\<lparr>stylesheet := []\<rparr>)
      else if nm = ''dark'' then set_theme_setting (PyStr ''dark'') (g\<lparr>stylesheet := dark_qss env\<rparr>)
      else if nm = ''light'' then set_theme_setting (PyStr ''light'') (g\<lparr>stylesheet := light_qss env\<rparr>)
      else g)"

text \<open>
  The loop of \<^verbatim>\<open>__init__\<close> over \<^verbatim>\<open>settings.items()\<close>; the first unknown option raises and
  ends the construction.
\<close>

fun apply_settings :: "(string, pyval) dict \<Rightarrow> settings_store \<Rightarrow> error + settings_store" where
  "apply_settings [] s = Inr s"
| "apply_settings ((key, v) # rest) s =
     (case settings_set key v s of Inl e \<Rightarrow> Inl e | Inr s' \<Rightarrow> apply_settings rest s')"

text \<open>
  The end of \<^verbatim>\<open>make_menu_bar\<close>: one action per theme, and the action of the theme that is
  the current setting is triggered, which calls \<^verbatim>\<open>set_theme\<close>.
\<close>

definition trigger_default_theme :: "env \<Rightarrow> 'obj gui \<Rightarrow> 'obj gui" where
  "trigger_default_theme env g =
     fold (\<lambda>th g'. if PyStr th = theme_value (store_settings (store g')) then set_theme env th g' else g')
       [''light'', ''dark'', ''classic''] g"

text \<open>\<^verbatim>\<open>for df_name, df in kwargs.items(): self.store.add_dataframe(df, df_name)\<close>\<close>

definition add_kwargs :: "(string, 'obj) dict \<Rightarrow> 'obj store \<Rightarrow> 'obj store" where
  "add_kwargs kwargs st = fold (\<lambda>(df_name, df) st'. add_dataframe df df_name st') kwargs st"

text \<open>
  \<^verbatim>\<open>PandasGui.__init__\<close>. The new window takes the next identity and is appended to
  \<^verbatim>\<open>refs\<close> before anything can fail. The widgets that \<^verbatim>\<open>init_ui\<close> builds have no state of
  their own here; the navigator's \<^verbatim>\<open>setCurrentItem(topLevelItem(0))\<close> finds the first entry
  selected already, since the first \<^verbatim>\<open>add\<close> into an empty store selects it.
  \<^verbatim>\<open>
        self.show()
        # Start event loop if blocking enabled
        if self.store.settings.block.value:
            self.app.exec_()
  \<close>
\<close>

definition PandasGui_init ::
  "env \<Rightarrow> (string, pyval) dict \<Rightarrow> (string, 'obj) dict \<Rightarrow> world \<Rightarrow> world \<times> (error + 'obj gui)" where
  "PandasGui_init env settings kwargs w =
     (let self = next_id w;
          w1 = w\<lparr>refs := refs w @ [self], next_id := Suc self\<rparr>
      in case apply_settings settings (default_settings env) of
           Inl e \<Rightarrow> (w1, Inl e)
         | Inr s \<Rightarrow>
             (let g0 = \<lparr>gid = self, store = empty_store s, stylesheet = []\<rparr>;
                  g1 = trigger_default_theme env g0;
                  g2 = g1\<lparr>store := add_kwargs kwargs (store g1)\<rparr>;
                  w2 = emit (WindowShown self) w1;
                  w3 = (if truthy (block_value (store_settings (store g2)))
                        then emit (EventLoopEntered self) w2 else w2)
              in (w3, Inr g2)))"

text \<open>
  \<^verbatim>\<open>
    def closeEvent(self, e):
        refs.remove(self)
        super().closeEvent(e)
  \<close>
  \<^verbatim>\<open>list.remove\<close> takes out the first occurrence and raises \<^verbatim>\<open>ValueError\<close> when there is
  none.
\<close>

definition closeEvent :: "nat \<Rightarrow> world \<Rightarrow> error + world" where
  "closeEvent self w =
     (if self \<in> set (refs w) then Inr (w\<lparr>refs := remove1 self (refs w)\<rparr>) else Inl ValueError)"

text \<open>Windows being constructed and closed, in any order; a close that raises changes nothing.\<close>

datatype 'obj window_op =
  Construct "(string, pyval) dict" "(string, 'obj) dict"
| Close nat

fun window_step :: "env \<Rightarrow> 'obj window_op \<Rightarrow> world \<Rightarrow> world" where
  "window_step env (Construct settings kwargs) w = fst (PandasGui_init env settings kwargs w)"
| "window_step env (Close self) w = (case closeEvent self w of Inl e \<Rightarrow> w | Inr w' \<Rightarrow> w')"

definition run_windows :: "env \<Rightarrow> 'obj window_op list \<Rightarrow> world \<Rightarrow> world" where
  "run_windows env ops w = fold (window_step env) ops w"

definition initial_world :: world where
  "initial_world = \<lparr>refs = [], next_id = 0, events = []\<rparr>"

text \<open>What a step added to the trace.\<close>

definition new_events :: "world \<Rightarrow> world \<Rightarrow> event list" where
  "new_events w w' = drop (length (events w)) (events w')"

section \<open>\<^verbatim>\<open>PandasGui.refresh\<close>\<close>

text \<open>\<^verbatim>\<open>', '.join(refreshed_names)\<close>\<close>

fun str_join :: "string \<Rightarrow> string list \<Rightarrow> string" where
  "str_join sep [] = []"
| "str_join sep [x] = x"
| "str_join sep (x # y # rest) = x @ sep @ str_join sep (y # rest)"

text \<open>
  The inner loop runs over the names the store had when the loop began (the list
  comprehension is evaluated once), with the store and \<^verbatim>\<open>refreshed_names\<close> as state:
  \<^verbatim>\<open>
            for ix, name in enumerate([pgdf.name for pgdf in self.store.data]):
                if var_name == name:
                    none_found_flag = False
                    self.store.remove_dataframe(var_name)
                    self.store.add_dataframe(var_val, name=var_name)
                    refreshed_names.append(var_name)
  \<close>
\<close>

fun refresh_names ::
  "string \<Rightarrow> 'obj \<Rightarrow> string list \<Rightarrow> 'obj store \<times> string list \<Rightarrow> error + 'obj store \<times> string list" where
  "refresh_names var_name var_val [] (st, refreshed_names) = Inr (st, refreshed_names)"
| "refresh_names var_name var_val (nm # rest) (st, refreshed_names) =
     (if var_name = nm
      then (case remove_dataframe var_name st of
              Inl e \<Rightarrow> Inl e
            | Inr st' \<Rightarrow>
                refresh_names var_name var_val rest
                  (add_dataframe var_val var_name st', refreshed_names @ [var_name]))
      else refresh_names var_name var_val rest (st, refreshed_names))"

text \<open>The outer loop, over the local variables of the frame \<^verbatim>\<open>show\<close> was called from.\<close>

fun refresh_loop ::
  "(string, 'obj) dict \<Rightarrow> 'obj store \<times> string list \<Rightarrow> error + 'obj store \<times> string list" where
  "refresh_loop [] acc = Inr acc"
| "refresh_loop ((var_name, var_val) # rest) (st, refreshed_names) =
     (case refresh_names var_name var_val (entry_names st) (st, refreshed_names) of
        Inl e \<Rightarrow> Inl e
      | Inr acc' \<Rightarrow> refresh_loop rest acc')"

text \<open>
  \<^verbatim>\<open>refresh\<close> reads \<^verbatim>\<open>self.caller_stack.f_locals\<close> when it runs, so the caller's variables
  at that moment are an argument.
\<close>

definition refresh :: "(string, 'obj) dict \<Rightarrow> 'obj gui \<Rightarrow> world \<Rightarrow> world \<times> (error + 'obj gui)" where
  "refresh callers_local_vars g w =
     (case refresh_loop callers_local_vars (store g, []) of
        Inl e \<Rightarrow> (w, Inl e)
      | Inr (st, refreshed_names) \<Rightarrow>
          (emit (Print (if refreshed_names = [] then ''No matching DataFrames found to refresh''
                        else ''Refreshed '' @ str_join '', '' refreshed_names)) w,
           Inr (g\<lparr>store := st\<rparr>)))"

section \<open>\<^verbatim>\<open>show\<close>\<close>

definition duplicate_warning :: string where
  "duplicate_warning = ''Duplicate DataFrame names were provided, duplicates were ignored.''"

text \<open>
  The part of \<^verbatim>\<open>show\<close> before the window is made: the loop over the positional arguments,
  the warning, and the merge.
  \<^verbatim>\<open>
    if any([key in kwargs.keys() for key in dataframes.keys()]):
        logger.warning("Duplicate DataFrame names were provided, duplicates were ignored.")

    kwargs = {**kwargs, **dataframes}
  \<close>
\<close>

definition show_kwargs ::
  "'obj list \<Rightarrow> (string, 'obj) dict \<Rightarrow> (string, 'obj) dict \<Rightarrow> world \<Rightarrow> (string, 'obj) dict \<times> world" where
  "show_kwargs args kwargs callers_local_vars w =
     (let dataframes = fst (show_loop args callers_local_vars ([], 1));
          w1 = (if list_ex (\<lambda>key. key \<in> set (dict_keys kwargs)) (dict_keys dataframes)
                then emit (Warning duplicate_warning) w else w)
      in (dict_merge kwargs dataframes, w1))"

text \<open>\<^verbatim>\<open>pandas_gui = PandasGui(settings=settings, **kwargs)\<close>\<close>

definition show_gui ::
  "env \<Rightarrow> 'obj list \<Rightarrow> (string, pyval) dict \<Rightarrow> (string, 'obj) dict \<Rightarrow> (string, 'obj) dict \<Rightarrow> world
     \<Rightarrow> world \<times> (error + 'obj gui)" where
  "show_gui env args settings kwargs callers_local_vars w =
     (let (kwargs', w1) = show_kwargs args kwargs callers_local_vars w
      in PandasGui_init env settings kwargs' w1)"

section \<open>Concrete values\<close>

definition demo_settings :: settings_store where
  "demo_settings = \<lparr>theme_value = PyStr ''light'', style_value = PyStr ''Fusion'',
     block_value = PyBool False, other_settings = [(''editable'', PyBool True)]\<rparr>"

definition demo_env :: env where
  "demo_env = \<lparr>dark_qss = ''QWidget { color: white }'', light_qss = ''QWidget { color: black }'',
     default_settings = demo_settings\<rparr>"

text \<open>A window whose store holds \<^verbatim>\<open>a\<close> and \<^verbatim>\<open>b\<close>, added in this order, so that \<^verbatim>\<open>a\<close> is selected.\<close>

definition demo_gui :: "nat gui" where
  "demo_gui =
     \<lparr>gid = 0,
      store = add_dataframe 2 ''b'' (add_dataframe 1 ''a'' (empty_store demo_settings)),
      stylesheet = []\<rparr>"

section \<open>Dictionaries: basic facts\<close>

lemma dict_set_keys:
  "fst ` set (dict_set k v d) = insert k (fst ` set d)"
proof (induction d)
  case Nil
  show ?case by simp
next
  case (Cons p d)
  obtain k' v' where p: "p = (k', v')" by (cases p)
  show ?case using Cons.IH by (auto simp: p)
qed

lemma dict_set_distinct:
  "distinct (map fst d) \<Longrightarrow> distinct (map fst (dict_set k v d))"
  by (induction d) (auto simp: dict_set_keys)

lemma dict_set_map_of:
  "map_of (dict_set k v d) = (map_of d)(k \<mapsto> v)"
  by (induction d) (auto simp: fun_eq_iff)

section \<open>The naming loop: basic facts\<close>

lemma find_var_filter:
  "find_var scope obj acc =
     (case filter (\<lambda>(k, v). v = obj) scope of [] \<Rightarrow> acc | m # ms \<Rightarrow> Some (fst (last (m # ms))))"
  by (induction scope arbitrary: acc) (auto split: list.splits)

lemma find_var_None: "find_var scope obj None = None \<longleftrightarrow> obj \<notin> snd ` set scope"
proof -
  have "filter (\<lambda>(k, v). v = obj) scope = [] \<longleftrightarrow> obj \<notin> snd ` set scope"
    by (force simp: filter_empty_conv)
  then show ?thesis
    by (cases "filter (\<lambda>(k, v). v = obj) scope") (simp_all add: find_var_filter)
qed

lemma find_var_Some_mem:
  assumes "find_var scope obj None = Some nm"
  shows "(nm, obj) \<in> set scope"
proof -
  let ?ms = "filter (\<lambda>(k, v). v = obj) scope"
  from assms have ne: "?ms \<noteq> []" and nm: "nm = fst (last ?ms)"
    by (auto simp: find_var_filter split: list.splits)
  from ne have "last ?ms \<in> set ?ms" by (rule last_in_set)
  then have "last ?ms \<in> set scope" and "snd (last ?ms) = obj" by auto
  with nm show ?thesis by (metis prod.collapse)
qed

lemma length_df_names: "length (df_names args scope un) = length args"
  by (induction args arbitrary: un) (auto split: option.splits)

lemma show_loop_fold:
  "show_loop args scope (dfs, un) =
     (fold (\<lambda>(k, v) d. dict_set k v d) (zip (df_names args scope un) args) dfs,
      un + length (filter (unmatched scope) args))"
  by (induction args arbitrary: dfs un) (auto simp: unmatched_def split: option.splits)

lemma unmatched_fun: "unmatched scope = (\<lambda>a. find_var scope a None = None)"
  by (auto simp: unmatched_def fun_eq_iff)

lemma df_names_nth:
  "i < length args \<Longrightarrow>
     df_names args scope un ! i =
       (case find_var scope (args ! i) None of
          Some nm \<Rightarrow> nm
        | None \<Rightarrow> untitled (un + length (filter (unmatched scope) (take i args))))"
proof (induction args arbitrary: i un)
  case Nil
  then show ?case by simp
next
  case (Cons a args)
  show ?case
  proof (cases i)
    case 0
    then show ?thesis by (simp split: option.splits)
  next
    case (Suc j)
    with Cons.prems have j: "j < length args" by simp
    show ?thesis
      using Cons.IH [OF j] Suc
      by (simp add: unmatched_fun split: option.splits)
  qed
qed

lemma digit_value: "d < 10 \<Longrightarrow> of_char (digit_char d) - 48 = d"
  by (simp add: digit_char_def)

lemma decimal_value_snoc:
  "decimal_value (s @ [c]) = 10 * decimal_value s + (of_char c - 48)"
  by (simp add: decimal_value_def)

lemma decimal_value_str_nat: "decimal_value (str_nat n) = n"
proof (induction n rule: str_nat.induct)
  case (1 n)
  show ?case
  proof (cases "n < 10")
    case True
    then show ?thesis
      by (subst str_nat.simps) (simp add: decimal_value_def digit_value)
  next
    case False
    have "decimal_value (str_nat n) = 10 * decimal_value (str_nat (n div 10)) + (of_char (digit_char (n mod 10)) - 48)"
      using False by (subst str_nat.simps) (simp add: decimal_value_snoc)
    also have "\<dots> = 10 * (n div 10) + n mod 10"
      using 1 False by (simp add: digit_value)
    finally show ?thesis by simp
  qed
qed

lemma untitled_inj: "untitled m = untitled n \<longleftrightarrow> m = n"
proof
  assume "untitled m = untitled n"
  then have "str_nat m = str_nat n" by (simp add: untitled_def)
  then have "decimal_value (str_nat m) = decimal_value (str_nat n)" by simp
  then show "m = n" by (simp add: decimal_value_str_nat)
qed simp

lemma least_unused_untitled:
  "(LEAST n. 0 < n \<and> untitled n \<notin> untitled ` {1..k}) = Suc k"
proof (rule Least_equality)
  show "0 < Suc k \<and> untitled (Suc k) \<notin> untitled ` {1..k}"
    by (auto simp: untitled_inj)
next
  fix y assume "0 < y \<and> untitled y \<notin> untitled ` {1..k}"
  then have "0 < y" and "y \<notin> {1..k}" by auto
  then show "Suc k \<le> y" by auto
qed

lemma synthesized_before:
  assumes "i \<le> length args"
  shows "{df_names args scope 1 ! j | j. j < i \<and> unmatched scope (args ! j)}
         = untitled ` {1..length (filter (unmatched scope) (take i args))}"
  using assms
proof (induction i)
  case 0
  then show ?case by simp
next
  case (Suc i)
  then have i: "i < length args" and ih: "{df_names args scope 1 ! j | j. j < i \<and> unmatched scope (args ! j)}
         = untitled ` {1..length (filter (unmatched scope) (take i args))}" by simp_all
  let ?c = "length (filter (unmatched scope) (take i args))"
  have split: "{df_names args scope 1 ! j | j. j < Suc i \<and> unmatched scope (args ! j)}
      = {df_names args scope 1 ! j | j. j < i \<and> unmatched scope (args ! j)}
        \<union> (if unmatched scope (args ! i) then {df_names args scope 1 ! i} else {})"
    by (auto simp: less_Suc_eq)
  show ?case
  proof (cases "unmatched scope (args ! i)")
    case True
    then have nm: "df_names args scope 1 ! i = untitled (Suc ?c)"
      using df_names_nth [OF i, of scope 1] by (simp add: unmatched_def)
    have cnt: "length (filter (unmatched scope) (take (Suc i) args)) = Suc ?c"
      using True i by (simp add: take_Suc_conv_app_nth)
    have "{1..Suc ?c} = insert (Suc ?c) {1..?c}" by auto
    then show ?thesis unfolding split ih cnt using True nm by simp
  next
    case False
    have cnt: "length (filter (unmatched scope) (take (Suc i) args)) = ?c"
      using False i by (simp add: take_Suc_conv_app_nth)
    show ?thesis unfolding split ih cnt using False by simp
  qed
qed

section \<open>The dictionary of positional arguments\<close>

lemma fold_dict_set_keys:
  "fst ` set (fold (\<lambda>(k, v) d. dict_set k v d) kvs d) = fst ` set d \<union> fst ` set kvs"
proof (induction kvs arbitrary: d)
  case Nil
  show ?case by simp
next
  case (Cons p kvs)
  obtain k v where p: "p = (k, v)" by (cases p)
  show ?case by (simp add: p Cons.IH dict_set_keys)
qed

lemma fold_dict_set_distinct:
  "distinct (map fst d) \<Longrightarrow> distinct (map fst (fold (\<lambda>(k, v) d. dict_set k v d) kvs d))"
proof (induction kvs arbitrary: d)
  case Nil
  then show ?case by simp
next
  case (Cons p kvs)
  obtain k v where p: "p = (k, v)" by (cases p)
  show ?case using Cons.prems by (simp add: p Cons.IH dict_set_distinct)
qed

lemma fold_dict_set_map_of:
  "map_of (fold (\<lambda>(k, v) d. dict_set k v d) kvs d) = map_of d ++ map_of (rev kvs)"
proof (induction kvs arbitrary: d)
  case Nil
  show ?case by simp
next
  case (Cons p kvs)
  obtain k v where p: "p = (k, v)" by (cases p)
  show ?case by (simp add: p Cons.IH dict_set_map_of map_add_def fun_eq_iff split: option.splits)
qed

lemma show_loop_keys:
  "fst ` set (fst (show_loop args scope (dfs, un))) = fst ` set dfs \<union> set (df_names args scope un)"
proof -
  have "fst ` set (zip (df_names args scope un) args) = set (df_names args scope un)"
    using length_df_names [of args scope un]
    by (metis map_fst_zip set_map)
  then show ?thesis by (simp add: show_loop_fold fold_dict_set_keys)
qed

lemma show_loop_distinct:
  "distinct (map fst dfs) \<Longrightarrow> distinct (map fst (fst (show_loop args scope (dfs, un))))"
  by (simp add: show_loop_fold fold_dict_set_distinct)

lemma df_names_origin:
  "nm \<in> set (df_names args scope un) \<Longrightarrow> nm \<in> fst ` set scope \<or> (\<exists>n\<ge>un. nm = untitled n)"
proof (induction args arbitrary: un)
  case Nil
  then show ?case by simp
next
  case (Cons a args)
  show ?case
  proof (cases "find_var scope a None")
    case None
    with Cons.prems have "nm = untitled un \<or> nm \<in> set (df_names args scope (un + 1))" by simp
    then show ?thesis
    proof
      assume "nm = untitled un"
      then show ?thesis by auto
    next
      assume "nm \<in> set (df_names args scope (un + 1))"
      from Cons.IH [OF this] show ?thesis by (auto intro: Suc_leD)
    qed
  next
    case (Some v)
    with Cons.prems have "nm = v \<or> nm \<in> set (df_names args scope un)" by simp
    then show ?thesis
    proof
      assume "nm = v"
      with Some have "(nm, a) \<in> set scope" by (simp add: find_var_Some_mem)
      then show ?thesis by force
    next
      assume "nm \<in> set (df_names args scope un)"
      from Cons.IH [OF this] show ?thesis .
    qed
  qed
qed

lemma untitled_literals:
  "untitled (Suc 0) = ''untitled_1''" "untitled (Suc (Suc 0)) = ''untitled_2''"
  "untitled 1 = ''untitled_1''" "untitled 2 = ''untitled_2''"
  by code_simp+

section \<open>Which variable names a payload\<close>

text \<open>
  C2, as the code has it. For every positional payload that at least one variable of the
  calling scope is bound to (by identity), the name chosen is the name of the LAST such
  variable in the scope's iteration order: the inner loop has no \<^verbatim>\<open>break\<close>, so each later
  match overwrites \<^verbatim>\<open>df_name\<close>. The payload is stored under that name.
\<close>

theorem last_match_wins:
  assumes "i < length args" and "filter (\<lambda>(k, v). v = args ! i) scope \<noteq> []"
  shows "df_names args scope 1 ! i = fst (last (filter (\<lambda>(k, v). v = args ! i) scope)) \<and>
         df_names args scope 1 ! i \<in> fst ` set (fst (show_loop args scope ([], 1)))"
proof
  from assms(2) have "find_var scope (args ! i) None = Some (fst (last (filter (\<lambda>(k, v). v = args ! i) scope)))"
    by (cases "filter (\<lambda>(k, v). v = args ! i) scope") (simp_all add: find_var_filter)
  then show "df_names args scope 1 ! i = fst (last (filter (\<lambda>(k, v). v = args ! i) scope))"
    using df_names_nth [OF assms(1), of scope 1] by simp
next
  have "df_names args scope 1 ! i \<in> set (df_names args scope 1)"
    using assms(1) by (simp add: length_df_names)
  then show "df_names args scope 1 ! i \<in> fst ` set (fst (show_loop args scope ([], 1)))"
    by (simp add: show_loop_keys)
qed

theorem last_match_wins_witness:
  "df_names [7::nat] [(''a'', 7), (''c'', 3), (''b'', 7)] 1 ! 0 = ''b'' \<and>
   ''b'' \<in> fst ` set (fst (show_loop [7::nat] [(''a'', 7), (''c'', 3), (''b'', 7)] ([], 1)))"
  using last_match_wins [of 0 "[7::nat]" "[(''a'', 7), (''c'', 3), (''b'', 7)]"]
  by simp

text \<open>
  With two variables \<^verbatim>\<open>a\<close> and \<^verbatim>\<open>b\<close> bound to the same object, in this order, the payload
  is named \<^verbatim>\<open>b\<close>, not \<^verbatim>\<open>a\<close>: the first match in scope-iteration order is not the one
  chosen.
\<close>

theorem first_match_counterexample:
  "find_var [(''a'', 0::nat), (''b'', 0)] 0 None = Some ''b'' \<and>
   fst (show_loop [0] [(''a'', 0::nat), (''b'', 0)] ([], 1)) = [(''b'', 0)] \<and>
   ''b'' \<noteq> ''a''"
  by simp

section \<open>Synthesized names\<close>

text \<open>
  C5. In one call, a positional payload that no variable of the scope is bound to is named
  \<^verbatim>\<open>untitled_{n}\<close>, where \<open>n\<close> is one more than the number of such payloads before it: the
  first is \<^verbatim>\<open>untitled_1\<close>, the second \<^verbatim>\<open>untitled_2\<close>. That \<open>n\<close> is the smallest positive
  integer whose name was not synthesized earlier in the call, and the name is a key of
  the resulting dictionary.
\<close>

theorem untitled_numbering:
  assumes "i < length args" and "unmatched scope (args ! i)"
  shows "let k = length (filter (unmatched scope) (take i args)) in
           df_names args scope 1 ! i = untitled (Suc k) \<and>
           (LEAST n. 0 < n \<and>
              untitled n \<notin> {df_names args scope 1 ! j | j. j < i \<and> unmatched scope (args ! j)}) = Suc k \<and>
           untitled (Suc k) \<in> fst ` set (fst (show_loop args scope ([], 1))) \<and>
           untitled 1 = ''untitled_1'' \<and> untitled 2 = ''untitled_2''"
proof -
  let ?k = "length (filter (unmatched scope) (take i args))"
  have nm: "df_names args scope 1 ! i = untitled (Suc ?k)"
    using df_names_nth [OF assms(1), of scope 1] assms(2) by (simp add: unmatched_def)
  have least: "(LEAST n. 0 < n \<and>
              untitled n \<notin> {df_names args scope 1 ! j | j. j < i \<and> unmatched scope (args ! j)}) = Suc ?k"
    using assms(1) by (simp only: synthesized_before [of i args scope] less_imp_le least_unused_untitled)
  have "df_names args scope 1 ! i \<in> set (df_names args scope 1)"
    using assms(1) by (simp add: length_df_names)
  with nm have "untitled (Suc ?k) \<in> set (df_names args scope 1)" by simp
  then have key: "untitled (Suc ?k) \<in> fst ` set (fst (show_loop args scope ([], 1)))"
    by (simp add: show_loop_keys)
  note lit = untitled_literals(3,4)
  show ?thesis unfolding Let_def using nm least key lit by blast
qed

theorem untitled_numbering_witness:
  "df_names [5::nat, 1, 7] [(''x'', 1)] 1 ! 2 = ''untitled_2'' \<and>
   df_names [5::nat, 1, 7] [(''x'', 1)] 1 ! 0 = ''untitled_1''"
proof -
  have a: "(2::nat) < length [5::nat, 1, 7]" "(0::nat) < length [5::nat, 1, 7]" by simp_all
  have u: "unmatched [(''x'', 1)] ([5::nat, 1, 7] ! 2)" "unmatched [(''x'', 1)] ([5::nat, 1, 7] ! 0)"
    by (simp_all add: unmatched_def)
  show ?thesis
    using untitled_numbering [OF a(1) u(1)] untitled_numbering [OF a(2) u(2)]
    by (simp add: unmatched_def Let_def untitled_literals)
qed

section \<open>Every payload gets a name\<close>

text \<open>
  C6. The resolution loop is a total function with no error result. For every sequence
  of positional payloads and every scope it gives each payload a name, which is a
  variable name of the scope or a synthesized \<^verbatim>\<open>untitled_{n}\<close> with \<open>n \<ge> 1\<close>; the keys of the
  dictionary it produces are exactly the names given, each once.
\<close>

theorem resolution_total:
  "length (df_names args scope 1) = length args \<and>
   (\<forall>nm \<in> set (df_names args scope 1). nm \<in> fst ` set scope \<or> (\<exists>n\<ge>1. nm = untitled n)) \<and>
   set (dict_keys (fst (show_loop args scope ([], 1)))) = set (df_names args scope 1) \<and>
   distinct (dict_keys (fst (show_loop args scope ([], 1))))"
proof -
  have "set (dict_keys (fst (show_loop args scope ([], 1)))) = set (df_names args scope 1)"
    using show_loop_keys [of args scope "[]" 1] by (simp add: dict_keys_def)
  moreover have "distinct (dict_keys (fst (show_loop args scope ([], 1))))"
    using show_loop_distinct [of "[]" args scope 1] by (simp add: dict_keys_def)
  ultimately show ?thesis
    using df_names_origin [of _ args scope 1] by (simp add: length_df_names)
qed

theorem resolution_total_witness:
  "df_names [5::nat, 1, 5] [(''x'', 1)] 1 = [''untitled_1'', ''x'', ''untitled_2''] \<and>
   dict_keys (fst (show_loop [5::nat, 1, 5] [(''x'', 1)] ([], 1))) = [''untitled_1'', ''x'', ''untitled_2'']"
  using resolution_total [of "[5::nat, 1, 5]" "[(''x'', 1)]"]
  by (simp add: untitled_literals dict_keys_def)

section \<open>The merge with the keyword arguments\<close>

lemma dict_merge_map_of: "map_of (dict_merge a b) = map_of a ++ map_of (rev b)"
  by (simp add: dict_merge_def fold_dict_set_map_of)

lemma dict_merge_keys: "set (dict_keys (dict_merge a b)) = set (dict_keys a) \<union> set (dict_keys b)"
  by (simp add: dict_merge_def dict_keys_def fold_dict_set_keys)

lemma map_of_rev_distinct: "distinct (map fst d) \<Longrightarrow> map_of (rev d) = map_of d"
  by (rule map_of_inject_set [THEN iffD2]) (simp_all add: rev_map [symmetric])

lemma show_kwargs_events:
  "events (snd (show_kwargs args kwargs scope w)) =
     (if set (dict_keys (fst (show_loop args scope ([], 1)))) \<inter> set (dict_keys kwargs) \<noteq> {}
      then events w @ [Warning duplicate_warning] else events w)"
  by (auto simp: show_kwargs_def Let_def emit_def list_ex_iff)

text \<open>
  C1, as the code has it. When a name inferred for a positional payload is also the name
  of a keyword argument of the same call, the merged mapping \<^verbatim>\<open>{**kwargs, **dataframes}\<close>
  binds that name to the POSITIONAL payload: the keyword argument's payload is the one
  that is dropped. The mapping has the names of both kinds, each once; the warning is
  logged; and the step is a total function, so nothing is raised.
\<close>

theorem positional_payload_survives:
  assumes "key \<in> set (dict_keys (fst (show_loop args scope ([], 1))))"
      and "key \<in> set (dict_keys kwargs)"
  shows "map_of (fst (show_kwargs args kwargs scope w)) key
           = map_of (fst (show_loop args scope ([], 1))) key \<and>
         map_of (fst (show_loop args scope ([], 1))) key \<noteq> None \<and>
         set (dict_keys (fst (show_kwargs args kwargs scope w)))
           = set (dict_keys kwargs) \<union> set (dict_keys (fst (show_loop args scope ([], 1)))) \<and>
         (distinct (dict_keys kwargs) \<longrightarrow> distinct (dict_keys (fst (show_kwargs args kwargs scope w)))) \<and>
         events (snd (show_kwargs args kwargs scope w)) = events w @ [Warning duplicate_warning]"
proof -
  let ?dfs = "fst (show_loop args scope ([], 1))"
  have d: "distinct (map fst ?dfs)"
    using show_loop_distinct [of "[]" args scope 1] by simp
  from assms(1) have some: "map_of ?dfs key \<noteq> None"
    by (simp add: dict_keys_def map_of_eq_None_iff)
  have "map_of (fst (show_kwargs args kwargs scope w)) key = (map_of kwargs ++ map_of (rev ?dfs)) key"
    by (simp add: show_kwargs_def Let_def dict_merge_map_of)
  also have "\<dots> = (map_of kwargs ++ map_of ?dfs) key"
    by (simp only: map_of_rev_distinct [OF d])
  also have "\<dots> = map_of ?dfs key"
    using some by (auto simp: map_add_def split: option.splits)
  finally have "map_of (fst (show_kwargs args kwargs scope w)) key = map_of ?dfs key" .
  moreover have "set (dict_keys (fst (show_kwargs args kwargs scope w)))
           = set (dict_keys kwargs) \<union> set (dict_keys ?dfs)"
    by (simp add: show_kwargs_def Let_def dict_merge_keys)
  moreover have "events (snd (show_kwargs args kwargs scope w)) = events w @ [Warning duplicate_warning]"
    using assms by (auto simp: show_kwargs_events)
  moreover have "distinct (dict_keys kwargs) \<longrightarrow> distinct (dict_keys (fst (show_kwargs args kwargs scope w)))"
    by (simp add: show_kwargs_def Let_def dict_merge_def dict_keys_def fold_dict_set_distinct)
  ultimately show ?thesis using some by blast
qed

theorem positional_payload_survives_witness:
  "map_of (fst (show_kwargs [1::nat] [(''sales'', 3), (''df'', 2)] [(''df'', 1)] initial_world)) ''df'' = Some 1 \<and>
   distinct (dict_keys (fst (show_kwargs [1::nat] [(''sales'', 3), (''df'', 2)] [(''df'', 1)] initial_world))) \<and>
   events (snd (show_kwargs [1::nat] [(''sales'', 3), (''df'', 2)] [(''df'', 1)] initial_world))
     = [Warning duplicate_warning]"
  using positional_payload_survives [of "''df''" "[1::nat]" "[(''df'', 1)]" "[(''sales'', 3), (''df'', 2)]" initial_world]
  by (simp add: dict_keys_def initial_world_def)

text \<open>
  A variable \<^verbatim>\<open>df\<close> bound to object 1 is passed positionally together with \<^verbatim>\<open>df=\<close>object 2:
  the mapping that goes on to the window binds \<^verbatim>\<open>df\<close> to object 1, so the explicitly
  supplied payload does not survive.
\<close>

theorem keyword_wins_counterexample:
  "show_kwargs [1::nat] [(''df'', 2)] [(''df'', 1)] initial_world
     = ([(''df'', 1)], emit (Warning duplicate_warning) initial_world)"
  by (simp add: show_kwargs_def dict_merge_def dict_keys_def)

section \<open>One object passed several times\<close>

lemma distinct_filter_singleton:
  assumes "distinct xs" and "set xs \<subseteq> {a}"
  shows "xs = [] \<or> xs = [a]"
proof (cases xs)
  case Nil
  then show ?thesis by simp
next
  case (Cons x ys)
  with assms have x: "x = a" and "set ys \<subseteq> {a}" and "a \<notin> set ys" by auto
  then have "ys = []" by (cases ys) auto
  with x Cons show ?thesis by simp
qed

lemma unmatched_count_before:
  assumes "i < length args" and "unmatched scope (args ! i)"
  shows "Suc (length (filter (unmatched scope) (take i args))) \<le> length (filter (unmatched scope) args)"
proof -
  have "args = take i args @ args ! i # drop (Suc i) args"
    using assms(1) by (simp add: id_take_nth_drop)
  then have "filter (unmatched scope) args
      = filter (unmatched scope) (take i args) @ args ! i # filter (unmatched scope) (drop (Suc i) args)"
    using assms(2) by (metis filter.simps(2) filter_append)
  then have "length (filter (unmatched scope) args)
      = length (filter (unmatched scope) (take i args)) + Suc (length (filter (unmatched scope) (drop (Suc i) args)))"
    by (metis length_append length_Cons)
  then show ?thesis by simp
qed

lemma show_loop_entry_origin:
  assumes "(k, x) \<in> set (fst (show_loop args scope ([], 1)))"
  shows "\<exists>i<length args. df_names args scope 1 ! i = k \<and> args ! i = x"
proof -
  let ?kvs = "zip (df_names args scope 1) args"
  have "distinct (map fst (fst (show_loop args scope ([], 1))))"
    using show_loop_distinct [of "[]" args scope 1] by simp
  with assms have "map_of (fst (show_loop args scope ([], 1))) k = Some x"
    by simp
  then have "map_of (rev ?kvs) k = Some x"
    by (simp add: show_loop_fold fold_dict_set_map_of)
  then have "(k, x) \<in> set ?kvs"
    using map_of_SomeD by fastforce
  then show ?thesis
    by (auto simp: in_set_zip length_df_names)
qed

lemma show_loop_last_writer:
  assumes "k \<in> set (df_names args scope 1)"
  shows "\<exists>i<length args. df_names args scope 1 ! i = k \<and>
           map_of (fst (show_loop args scope ([], 1))) k = Some (args ! i)"
proof -
  let ?kvs = "zip (df_names args scope 1) args"
  have "k \<in> fst ` set (rev ?kvs)"
    using assms length_df_names [of args scope 1] by (metis map_fst_zip set_map set_rev)
  then obtain y where y: "map_of (rev ?kvs) k = Some y"
    by (metis map_of_eq_None_iff not_None_eq)
  then have "(k, y) \<in> set ?kvs"
    using map_of_SomeD by fastforce
  then obtain i where "i < length args" "df_names args scope 1 ! i = k" "args ! i = y"
    by (auto simp: in_set_zip length_df_names)
  moreover have "map_of (fst (show_loop args scope ([], 1))) k = Some y"
    using y by (simp add: show_loop_fold fold_dict_set_map_of)
  ultimately show ?thesis by auto
qed

text \<open>
  C9, as the code has it. When an object that some variable of the calling scope is bound
  to is passed as a positional argument, once or several times, every occurrence resolves
  to the same name, that of the last such variable, and no \<^verbatim>\<open>untitled\<close> name is made for
  it. The resulting mapping has at most one entry for that object, and exactly one, under
  that name, unless that variable name is itself an \<^verbatim>\<open>untitled_{n}\<close> name synthesized in the
  same call.
\<close>

theorem bound_object_one_name:
  assumes "distinct (map fst scope)" and "find_var scope obj None = Some nm"
  shows "(\<forall>i<length args. args ! i = obj \<longrightarrow> df_names args scope 1 ! i = nm) \<and>
         (nm, obj) \<in> set scope \<and>
         length (filter (\<lambda>(k, x). x = obj) (fst (show_loop args scope ([], 1)))) \<le> 1 \<and>
         (obj \<in> set args \<and> nm \<notin> untitled ` {1..length (filter (unmatched scope) args)} \<longrightarrow>
            filter (\<lambda>(k, x). x = obj) (fst (show_loop args scope ([], 1))) = [(nm, obj)])"
proof -
  let ?dfs = "fst (show_loop args scope ([], 1))"
  let ?hits = "filter (\<lambda>(k, x). x = obj) ?dfs"
  have same: "df_names args scope 1 ! i = nm" if "i < length args" "args ! i = obj" for i
    using df_names_nth [OF that(1), of scope 1] that(2) assms(2) by simp
  have bound: "(nm, obj) \<in> set scope"
    using assms(2) by (rule find_var_Some_mem)
  have "distinct (map fst ?dfs)"
    using show_loop_distinct [of "[]" args scope 1] by simp
  then have "distinct ?dfs" by (rule distinct_map [THEN iffD1, THEN conjunct1])
  then have dh: "distinct ?hits" by simp
  have sub: "set ?hits \<subseteq> {(nm, obj)}"
  proof
    fix p assume "p \<in> set ?hits"
    then obtain k where p: "p = (k, obj)" and "(k, obj) \<in> set ?dfs" by auto
    from show_loop_entry_origin [OF this(2)] same have "k = nm" by auto
    with p show "p \<in> {(nm, obj)}" by simp
  qed
  from distinct_filter_singleton [OF dh sub] have atmost: "length ?hits \<le> 1" by auto
  have one: "?hits = [(nm, obj)]"
    if mem: "obj \<in> set args" and fresh: "nm \<notin> untitled ` {1..length (filter (unmatched scope) args)}"
  proof -
    from mem obtain j where j: "j < length args" "args ! j = obj" by (auto simp: in_set_conv_nth)
    then have "nm \<in> set (df_names args scope 1)"
      using same [OF j] by (metis length_df_names nth_mem)
    from show_loop_last_writer [OF this] obtain i where i: "i < length args"
      "df_names args scope 1 ! i = nm" "map_of ?dfs nm = Some (args ! i)" by auto
    have "args ! i = obj"
    proof (cases "find_var scope (args ! i) None")
      case None
      then have u: "unmatched scope (args ! i)" by (simp add: unmatched_def)
      have "nm = untitled (Suc (length (filter (unmatched scope) (take i args))))"
        using df_names_nth [OF i(1), of scope 1] None i(2) by simp
      moreover have "Suc (length (filter (unmatched scope) (take i args))) \<in> {1..length (filter (unmatched scope) args)}"
        using unmatched_count_before [OF i(1) u] by simp
      ultimately have "nm \<in> untitled ` {1..length (filter (unmatched scope) args)}" by blast
      with fresh show ?thesis by simp
    next
      case (Some v)
      then have "v = nm" using df_names_nth [OF i(1), of scope 1] i(2) by simp
      with Some have "(nm, args ! i) \<in> set scope" by (simp add: find_var_Some_mem)
      with bound assms(1) show ?thesis by (meson eq_key_imp_eq_value)
    qed
    with i(3) have "(nm, obj) \<in> set ?dfs" by (simp add: map_of_SomeD)
    then have "(nm, obj) \<in> set ?hits" by simp
    then have "?hits \<noteq> []" by (metis empty_iff empty_set)
    with distinct_filter_singleton [OF dh sub] show ?thesis by blast
  qed
  show ?thesis using same bound atmost one by blast
qed

theorem bound_object_one_name_witness:
  "df_names [4::nat, 9, 4] [(''a'', 4), (''b'', 4)] 1 ! 0 = ''b'' \<and>
   df_names [4::nat, 9, 4] [(''a'', 4), (''b'', 4)] 1 ! 2 = ''b'' \<and>
   filter (\<lambda>(k, x). x = 4) (fst (show_loop [4::nat, 9, 4] [(''a'', 4), (''b'', 4)] ([], 1))) = [(''b'', 4)]"
proof -
  have d: "distinct (map fst [(''a'', 4::nat), (''b'', 4)])" by simp
  have f: "find_var [(''a'', 4::nat), (''b'', 4)] 4 None = Some ''b''" by simp
  show ?thesis
    using bound_object_one_name [OF d f, of "[4::nat, 9, 4]"]
    by (simp add: untitled_literals)
qed

text \<open>
  Without the binding the sentence fails: an object that no variable is bound to, passed
  twice, gets \<^verbatim>\<open>untitled_1\<close> and \<^verbatim>\<open>untitled_2\<close>, two entries for one object. And an object
  bound to a variable called \<^verbatim>\<open>untitled_1\<close> loses its only entry to the first unmatched
  payload that follows it.
\<close>

theorem one_entry_per_object_counterexample:
  "fst (show_loop [0::nat, 0] [] ([], 1)) = [(''untitled_1'', 0), (''untitled_2'', 0)] \<and>
   fst (show_loop [1::nat, 1, 2] [(''untitled_1'', 1)] ([], 1)) = [(''untitled_1'', 2)]"
  by (simp add: untitled_literals)

section \<open>The store: selection\<close>

lemma preceding_Some:
  "preceding nm es = Some p \<Longrightarrow> p \<in> pgdf_name ` set es \<and> p \<noteq> nm"
  by (induction nm es rule: preceding.induct) (auto split: if_splits)

lemma replace_keeps_names:
  "map pgdf_name (map (\<lambda>e. if pgdf_name e = nm then new_entry nm payload else e) es) = map pgdf_name es"
  by (induction es) (simp_all add: new_entry_def)

lemma add_dataframe_entry_names:
  "entry_names (add_dataframe payload nm st) =
     (if nm \<in> set (entry_names st) then entry_names st else entry_names st @ [nm])"
  by (simp add: add_dataframe_def entry_names_def replace_keeps_names new_entry_def)

lemma add_dataframe_names:
  "set (entry_names (add_dataframe payload nm st)) = insert nm (set (entry_names st))"
  by (auto simp: add_dataframe_entry_names)

lemma length_store_states: "length (store_states xs st) = Suc (length xs)"
  by (induction xs arbitrary: st) simp_all

lemma add_dataframe_selected_ok:
  "selected_ok st \<Longrightarrow> selected_ok (add_dataframe payload nm st)"
  unfolding selected_ok_def
  by (simp add: add_dataframe_names split: option.splits)
     (auto simp: add_dataframe_def)

lemma remove_dataframe_selected_ok:
  assumes "selected_ok st" and "remove_dataframe nm st = Inr st'"
  shows "selected_ok st'"
proof -
  from assms(2) have st': "st' = st\<lparr>entries := filter (\<lambda>e. pgdf_name e \<noteq> nm) (entries st),
                   selected_name := (if selected_name st = Some nm
                                     then preceding nm (entries st)
                                     else selected_name st)\<rparr>"
    by (auto simp: remove_dataframe_def split: if_splits)
  show ?thesis
  proof (cases "selected_name st'")
    case None
    then show ?thesis by (simp add: selected_ok_def)
  next
    case (Some p)
    have "p \<in> pgdf_name ` set (entries st) \<and> p \<noteq> nm"
    proof (cases "selected_name st = Some nm")
      case True
      with Some st' have "preceding nm (entries st) = Some p" by simp
      then show ?thesis by (rule preceding_Some)
    next
      case False
      with Some st' have "selected_name st = Some p" by simp
      with assms(1) False show ?thesis by (auto simp: selected_ok_def entry_names_def)
    qed
    then have "p \<in> set (entry_names st')" by (auto simp: st' entry_names_def)
    with Some show ?thesis by (simp add: selected_ok_def)
  qed
qed

lemma select_dataframe_selected_ok:
  "select_dataframe nm st = Inr st' \<Longrightarrow> selected_ok st'"
  by (auto simp: select_dataframe_def selected_ok_def entry_names_def split: if_splits)

lemma store_step_selected_ok: "selected_ok st \<Longrightarrow> selected_ok (store_step x st)"
proof (cases x)
  case (Add payload nm scope)
  assume "selected_ok st"
  then show ?thesis by (simp add: Add add_dataframe_selected_ok)
next
  case (Remove nm)
  assume "selected_ok st"
  then show ?thesis
    by (auto simp: Remove split: sum.splits intro: remove_dataframe_selected_ok)
next
  case (Select nm)
  assume "selected_ok st"
  then show ?thesis
    by (auto simp: Select split: sum.splits intro: select_dataframe_selected_ok)
qed

lemma store_states_selected_ok:
  "selected_ok st \<Longrightarrow> list_all selected_ok (store_states xs st)"
  by (induction xs arbitrary: st) (simp_all add: store_step_selected_ok)

text \<open>
  C4. Start from the empty store and run any finite sequence of \<^verbatim>\<open>add\<close>, \<^verbatim>\<open>remove\<close> and
  \<^verbatim>\<open>select\<close> calls, where a call that raises leaves the store as it was. In the store
  before the first call and in the store after each of the calls, \<^verbatim>\<open>selected_name\<close> is none
  or the name of an entry.
\<close>

theorem selected_name_invariant:
  "list_all selected_ok (store_states xs (empty_store s)) \<and>
   length (store_states xs (empty_store s)) = Suc (length xs)"
proof
  show "list_all selected_ok (store_states xs (empty_store s))"
    by (rule store_states_selected_ok) (simp add: selected_ok_def empty_store_def)
  show "length (store_states xs (empty_store s)) = Suc (length xs)"
    by (rule length_store_states)
qed

section \<open>\<^verbatim>\<open>refresh\<close>: remove, then add\<close>

lemma refresh_names_absent:
  "var_name \<notin> set ns \<Longrightarrow> refresh_names var_name var_val ns acc = Inr acc"
  by (induction ns) (cases acc, simp)+

lemma refresh_names_once:
  assumes "remove_dataframe var_name st = Inr st1" and "distinct ns" and "var_name \<in> set ns"
  shows "refresh_names var_name var_val ns (st, rn)
           = Inr (add_dataframe var_val var_name st1, rn @ [var_name])"
  using assms(2,3)
proof (induction ns)
  case Nil
  then show ?case by simp
next
  case (Cons m ns)
  show ?case
  proof (cases "var_name = m")
    case True
    with Cons.prems have "var_name \<notin> set ns" by simp
    then show ?thesis using True assms(1) by (simp add: refresh_names_absent)
  next
    case False
    with Cons show ?thesis by simp
  qed
qed

lemma only_entry:
  assumes "distinct (map pgdf_name es)" and "n \<in> pgdf_name ` set es"
  shows "filter (\<lambda>e. pgdf_name e \<noteq> n) es = [] \<longleftrightarrow> length es = 1"
proof
  assume "filter (\<lambda>e. pgdf_name e \<noteq> n) es = []"
  then have "\<forall>e\<in>set es. pgdf_name e = n" by (simp add: filter_empty_conv)
  then have "set (map pgdf_name es) = {n}" using assms(2) by auto
  then have "card (set (map pgdf_name es)) = 1" by simp
  with assms(1) show "length es = 1" by (metis distinct_card length_map)
next
  assume "length es = 1"
  then obtain e where "es = [e]" by (cases es) auto
  with assms(2) show "filter (\<lambda>e. pgdf_name e \<noteq> n) es = []" by simp
qed

text \<open>
  C3, as the code has it. \<^verbatim>\<open>refresh\<close> calls \<^verbatim>\<open>remove_dataframe\<close> and then \<^verbatim>\<open>add_dataframe\<close>.
  For a store with unique names that has an entry named \<open>n\<close>, and a caller whose variable
  \<open>n\<close> holds the new payload, the refresh succeeds and reports the name; the entry has
  the new payload and an empty history, but it stands at the END of the display order,
  behind all the other entries in their old order. \<^verbatim>\<open>selected_name\<close> is \<open>n\<close> afterwards if
  \<open>n\<close> was the only entry; otherwise a selection that pointed at \<open>n\<close> has moved to the
  entry before it (or to none), and any other selection is kept.
\<close>

theorem refresh_reappends:
  assumes "distinct (entry_names (store g))" and "n \<in> set (entry_names (store g))"
  shows "\<exists>g'. refresh [(n, p)] g w = (emit (Print (''Refreshed '' @ n)) w, Inr g') \<and>
           entries (store g') = filter (\<lambda>e. pgdf_name e \<noteq> n) (entries (store g)) @ [new_entry n p] \<and>
           entry_names (store g') = filter (\<lambda>m. m \<noteq> n) (entry_names (store g)) @ [n] \<and>
           pgdf_data (last (entries (store g'))) = p \<and>
           pgdf_history (last (entries (store g'))) = [] \<and>
           selected_name (store g') =
             (if length (entries (store g)) = 1 then Some n
              else if selected_name (store g) = Some n then preceding n (entries (store g))
              else selected_name (store g)) \<and>
           (selected_name (store g) = Some n \<and> 1 < length (entries (store g))
              \<longrightarrow> selected_name (store g') \<noteq> Some n)"
proof -
  let ?st = "store g"
  let ?rest = "filter (\<lambda>e. pgdf_name e \<noteq> n) (entries ?st)"
  let ?sel1 = "if selected_name ?st = Some n then preceding n (entries ?st) else selected_name ?st"
  let ?st1 = "?st\<lparr>entries := ?rest, selected_name := ?sel1\<rparr>"
  let ?st2 = "add_dataframe p n ?st1"
  have rm: "remove_dataframe n ?st = Inr ?st1"
    using assms(2) by (simp add: remove_dataframe_def)
  have loop: "refresh_loop [(n, p)] (?st, []) = Inr (?st2, [n])"
    using refresh_names_once [OF rm assms(1) assms(2), of p "[]"] by simp
  have run: "refresh [(n, p)] g w = (emit (Print (''Refreshed '' @ n)) w, Inr (g\<lparr>store := ?st2\<rparr>))"
    unfolding refresh_def loop by simp
  have absent: "n \<notin> set (entry_names ?st1)"
    by (auto simp: entry_names_def)
  have ents: "entries ?st2 = ?rest @ [new_entry n p]"
    using absent by (simp add: add_dataframe_def)
  have names: "entry_names ?st2 = filter (\<lambda>m. m \<noteq> n) (entry_names ?st) @ [n]"
    by (simp add: entry_names_def ents new_entry_def filter_map comp_def)
  have empty_iff: "?rest = [] \<longleftrightarrow> length (entries ?st) = 1"
    using assms by (intro only_entry) (simp_all add: entry_names_def)
  have sel: "selected_name ?st2 =
      (if length (entries ?st) = 1 then Some n else ?sel1)"
    using absent empty_iff by (simp add: add_dataframe_def)
  have moved: "selected_name ?st2 \<noteq> Some n"
    if "selected_name ?st = Some n" "1 < length (entries ?st)"
  proof -
    from that sel have "selected_name ?st2 = preceding n (entries ?st)" by simp
    then show ?thesis using preceding_Some [of n "entries ?st" n] by auto
  qed
  have "pgdf_data (last (entries ?st2)) = p" "pgdf_history (last (entries ?st2)) = []"
    by (simp_all add: ents new_entry_def)
  with run ents names sel moved show ?thesis
    by (intro exI [of _ "g\<lparr>store := ?st2\<rparr>"]) simp
qed

lemma demo_gui_store:
  "store demo_gui = \<lparr>entries = [new_entry ''a'' 1, new_entry ''b'' 2],
                     selected_name = Some ''a'', store_settings = demo_settings\<rparr>"
  by (simp add: demo_gui_def add_dataframe_def empty_store_def entry_names_def new_entry_def)

theorem refresh_reappends_witness:
  "\<exists>g'. refresh [(''b'', 3)] demo_gui initial_world
           = (emit (Print ''Refreshed b'') initial_world, Inr g') \<and>
         entry_names (store g') = [''a'', ''b''] \<and>
         pgdf_data (last (entries (store g'))) = 3 \<and>
         pgdf_history (last (entries (store g'))) = [] \<and>
         selected_name (store g') = Some ''a''"
proof -
  have d: "distinct (entry_names (store demo_gui))"
    and m: "''b'' \<in> set (entry_names (store demo_gui))"
    by (simp_all add: demo_gui_store entry_names_def new_entry_def)
  from refresh_reappends [OF d m, of 3 initial_world] obtain g' where
    r: "refresh [(''b'', 3)] demo_gui initial_world = (emit (Print (''Refreshed '' @ ''b'')) initial_world, Inr g')"
    and e: "entry_names (store g') = filter (\<lambda>m. m \<noteq> ''b'') (entry_names (store demo_gui)) @ [''b'']"
    and p: "pgdf_data (last (entries (store g'))) = 3" "pgdf_history (last (entries (store g'))) = []"
    and s: "selected_name (store g') =
             (if length (entries (store demo_gui)) = 1 then Some ''b''
              else if selected_name (store demo_gui) = Some ''b'' then preceding ''b'' (entries (store demo_gui))
              else selected_name (store demo_gui))"
    by blast
  from r e p s show ?thesis
    by (intro exI [of _ g']) (simp add: demo_gui_store entry_names_def new_entry_def)
qed

text \<open>
  The store holds \<^verbatim>\<open>a\<close> and \<^verbatim>\<open>b\<close> with \<^verbatim>\<open>a\<close> selected. After the refresh of \<^verbatim>\<open>a\<close> the order
  is \<^verbatim>\<open>b\<close>, \<^verbatim>\<open>a\<close> and nothing is selected: neither the position nor the selection is
  preserved.
\<close>

theorem refresh_position_counterexample:
  "entry_names (store demo_gui) = [''a'', ''b''] \<and>
   selected_name (store demo_gui) = Some ''a'' \<and>
   snd (refresh [(''a'', 3)] demo_gui initial_world)
     = Inr \<lparr>gid = 0,
            store = \<lparr>entries = [new_entry ''b'' 2, new_entry ''a'' 3], selected_name = None,
                     store_settings = demo_settings\<rparr>,
            stylesheet = []\<rparr>"
  by (simp add: demo_gui_store refresh_def entry_names_def new_entry_def remove_dataframe_def
        add_dataframe_def demo_gui_def empty_store_def)

section \<open>Constructing a window\<close>

lemma set_theme_block:
  "block_value (store_settings (store (set_theme env th g))) = block_value (store_settings (store g))"
  by (simp add: set_theme_def set_theme_setting_def)

lemma trigger_default_theme_block:
  "block_value (store_settings (store (trigger_default_theme env g))) = block_value (store_settings (store g))"
  by (simp add: trigger_default_theme_def set_theme_block)

lemma trigger_default_theme_gid: "gid (trigger_default_theme env g) = gid g"
  by (simp add: trigger_default_theme_def set_theme_def set_theme_setting_def)

lemma add_dataframe_settings: "store_settings (add_dataframe payload nm st) = store_settings st"
  by (simp add: add_dataframe_def)

lemma add_kwargs_settings: "store_settings (add_kwargs kwargs st) = store_settings st"
proof -
  have "store_settings (fold (\<lambda>(df_name, df) st'. add_dataframe df df_name st') kwargs st) = store_settings st"
    by (induction kwargs arbitrary: st) (auto simp: add_dataframe_settings)
  then show ?thesis by (simp add: add_kwargs_def)
qed

lemma settings_set_block:
  "settings_set key v s = Inr s' \<Longrightarrow> block_value s' = (if key = ''block'' then v else block_value s)"
  by (auto simp: settings_set_def split: if_splits)

lemma apply_settings_block:
  "apply_settings settings s0 = Inr s \<Longrightarrow>
     block_value s = (case map_of (rev settings) ''block'' of Some v \<Rightarrow> v | None \<Rightarrow> block_value s0)"
proof (induction settings arbitrary: s0)
  case Nil
  then show ?case by simp
next
  case (Cons p settings)
  obtain key v where p: "p = (key, v)" by (cases p)
  from Cons.prems obtain s1 where s1: "settings_set key v s0 = Inr s1"
    and rest: "apply_settings settings s1 = Inr s"
    by (auto simp: p split: sum.splits)
  from Cons.IH [OF rest] settings_set_block [OF s1] show ?case
    by (auto simp: p map_add_def split: option.splits)
qed

lemma PandasGui_init_failure:
  assumes "apply_settings settings (default_settings env) = Inl e"
  shows "PandasGui_init env settings kwargs w
           = (w\<lparr>refs := refs w @ [next_id w], next_id := Suc (next_id w)\<rparr>, Inl e)"
  using assms by (simp add: PandasGui_init_def Let_def)

lemma PandasGui_init_success:
  assumes "apply_settings settings (default_settings env) = Inr s"
  shows "\<exists>g. snd (PandasGui_init env settings kwargs w) = Inr g \<and> gid g = next_id w \<and>
             block_value (store_settings (store g)) = block_value s"
    and "events (fst (PandasGui_init env settings kwargs w))
           = events w @ [WindowShown (next_id w)] @
               (if truthy (block_value s) then [EventLoopEntered (next_id w)] else [])"
    and "refs (fst (PandasGui_init env settings kwargs w)) = refs w @ [next_id w]"
    and "next_id (fst (PandasGui_init env settings kwargs w)) = Suc (next_id w)"
  using assms
  by (simp_all add: PandasGui_init_def Let_def emit_def add_kwargs_settings
        trigger_default_theme_block trigger_default_theme_gid empty_store_def)

lemma PandasGui_init_refs:
  "refs (fst (PandasGui_init env settings kwargs w)) = refs w @ [next_id w]"
  "next_id (fst (PandasGui_init env settings kwargs w)) = Suc (next_id w)"
  by (cases "apply_settings settings (default_settings env)";
      simp add: PandasGui_init_failure PandasGui_init_success)+

text \<open>
  C7. Constructing a window enters the Qt event loop, which holds the caller until the
  user interface closes, exactly when the construction gets as far as a window whose
  store has a true \<^verbatim>\<open>block\<close> setting. If a supplied setting is unknown the construction
  raises and nothing is shown. Otherwise the window's \<^verbatim>\<open>block\<close> setting is the one that
  results from applying the caller's settings to the defaults (the caller's value for
  \<^verbatim>\<open>block\<close> if there is one, the default if not); the window is shown, and the event loop
  is entered if that value is true and not entered if it is false.
\<close>

theorem event_loop_iff_block:
  "(EventLoopEntered (next_id w) \<in> set (new_events w (fst (PandasGui_init env settings kwargs w)))
      \<longleftrightarrow> (\<exists>g. snd (PandasGui_init env settings kwargs w) = Inr g \<and>
                truthy (block_value (store_settings (store g))))) \<and>
   (case apply_settings settings (default_settings env) of
      Inl e \<Rightarrow>
        snd (PandasGui_init env settings kwargs w) = Inl e \<and>
        new_events w (fst (PandasGui_init env settings kwargs w)) = []
    | Inr s \<Rightarrow>
        (\<exists>g. snd (PandasGui_init env settings kwargs w) = Inr g \<and>
              block_value (store_settings (store g)) = block_value s) \<and>
        block_value s = (case map_of (rev settings) ''block'' of
                           Some v \<Rightarrow> v | None \<Rightarrow> block_value (default_settings env)) \<and>
        new_events w (fst (PandasGui_init env settings kwargs w))
          = WindowShown (next_id w) #
              (if truthy (block_value s) then [EventLoopEntered (next_id w)] else []))"
proof (cases "apply_settings settings (default_settings env)")
  case (Inl e)
  then show ?thesis
    by (simp add: PandasGui_init_failure new_events_def)
next
  case (Inr s)
  from PandasGui_init_success(1) [OF Inr, of kwargs w] obtain g where
    g: "snd (PandasGui_init env settings kwargs w) = Inr g"
       "block_value (store_settings (store g)) = block_value s" by blast
  have ev: "new_events w (fst (PandasGui_init env settings kwargs w))
          = WindowShown (next_id w) #
              (if truthy (block_value s) then [EventLoopEntered (next_id w)] else [])"
    by (simp add: new_events_def PandasGui_init_success(2) [OF Inr])
  have "EventLoopEntered (next_id w) \<in> set (new_events w (fst (PandasGui_init env settings kwargs w)))
      \<longleftrightarrow> truthy (block_value s)"
    by (simp add: ev)
  with g ev apply_settings_block [OF Inr] show ?thesis
    by (simp add: Inr)
qed

theorem event_loop_iff_block_witness:
  "new_events initial_world
     (fst (PandasGui_init demo_env [(''block'', PyBool True)] [(''df'', 1::nat)] initial_world))
     = [WindowShown 0, EventLoopEntered 0] \<and>
   new_events initial_world
     (fst (PandasGui_init demo_env [(''theme'', PyStr ''dark'')] [(''df'', 1::nat)] initial_world))
     = [WindowShown 0]"
  using event_loop_iff_block [of initial_world demo_env "[(''block'', PyBool True)]" "[(''df'', 1::nat)]"]
        event_loop_iff_block [of initial_world demo_env "[(''theme'', PyStr ''dark'')]" "[(''df'', 1::nat)]"]
  by (simp add: demo_env_def demo_settings_def settings_set_def initial_world_def)

section \<open>The list \<^verbatim>\<open>refs\<close>\<close>

lemma window_step_refs_bound:
  assumes "distinct (refs w)" and "\<forall>x\<in>set (refs w). x < next_id w"
  shows "distinct (refs (window_step env x w)) \<and>
         (\<forall>y\<in>set (refs (window_step env x w)). y < next_id (window_step env x w))"
proof (cases x)
  case (Construct settings kwargs)
  with assms show ?thesis
    by (auto simp: PandasGui_init_refs less_Suc_eq)
next
  case (Close self)
  with assms show ?thesis
    by (auto simp: closeEvent_def dest: notin_set_remove1)
qed

lemma run_windows_refs_bound:
  assumes "distinct (refs w)" and "\<forall>x\<in>set (refs w). x < next_id w"
  shows "distinct (refs (run_windows env xs w)) \<and>
         (\<forall>y\<in>set (refs (run_windows env xs w)). y < next_id (run_windows env xs w))"
  using assms
proof (induction xs arbitrary: w)
  case Nil
  then show ?case by (simp add: run_windows_def)
next
  case (Cons x xs)
  from window_step_refs_bound [OF Cons.prems, of env x]
  have "distinct (refs (window_step env x w))"
    and "\<forall>y\<in>set (refs (window_step env x w)). y < next_id (window_step env x w)" by simp_all
  from Cons.IH [OF this] show ?case by (simp add: run_windows_def)
qed

lemma run_windows_keeps_open:
  assumes "self \<in> set (refs w)" and "Close self \<notin> set xs"
  shows "self \<in> set (refs (run_windows env xs w))"
  using assms
proof (induction xs arbitrary: w)
  case Nil
  then show ?case by (simp add: run_windows_def)
next
  case (Cons x xs)
  have "self \<in> set (refs (window_step env x w))"
  proof (cases x)
    case (Construct settings kwargs)
    with Cons.prems(1) show ?thesis by (simp add: PandasGui_init_refs)
  next
    case (Close other)
    with Cons.prems have "other \<noteq> self" by auto
    with Cons.prems(1) Close show ?thesis by (simp add: closeEvent_def)
  qed
  moreover from Cons.prems(2) have "Close self \<notin> set xs" by simp
  ultimately have "self \<in> set (refs (run_windows env xs (window_step env x w)))"
    by (rule Cons.IH)
  then show ?case by (simp add: run_windows_def)
qed

lemma window_step_stays_closed:
  assumes "self \<notin> set (refs w)" and "self < next_id w"
  shows "self \<notin> set (refs (window_step env x w)) \<and> self < next_id (window_step env x w)"
proof (cases x)
  case (Construct settings kwargs)
  with assms show ?thesis by (simp add: PandasGui_init_refs)
next
  case (Close other)
  with assms show ?thesis by (auto simp: closeEvent_def dest: notin_set_remove1)
qed

lemma run_windows_stays_closed:
  assumes "self \<notin> set (refs w)" and "self < next_id w"
  shows "self \<notin> set (refs (run_windows env xs w)) \<and> self < next_id (run_windows env xs w)"
  using assms
proof (induction xs arbitrary: w)
  case Nil
  then show ?case by (simp add: run_windows_def)
next
  case (Cons x xs)
  from window_step_stays_closed [OF Cons.prems, of env x]
  have "self \<notin> set (refs (window_step env x w))" and "self < next_id (window_step env x w)"
    by simp_all
  from Cons.IH [OF this] show ?case by (simp add: run_windows_def)
qed

lemma run_windows_monotone: "next_id w \<le> next_id (run_windows env xs w)"
proof (induction xs arbitrary: w)
  case Nil
  show ?case by (simp add: run_windows_def)
next
  case (Cons x xs)
  have "next_id w \<le> next_id (window_step env x w)"
    by (cases x) (simp_all add: PandasGui_init_refs closeEvent_def)
  also have "\<dots> \<le> next_id (run_windows env xs (window_step env x w))" by (rule Cons.IH)
  finally show ?case by (simp add: run_windows_def)
qed

lemma count_list_distinct: "distinct xs \<Longrightarrow> x \<in> set xs \<Longrightarrow> count_list xs x = 1"
  by (induction xs) auto

text \<open>
  C8. Take any world reached from the start by constructing and closing windows, and
  construct one more window there. Its identity is not in \<^verbatim>\<open>refs\<close> before; the
  construction appends it, so that it occurs exactly once. As long as its close event
  has not run it stays in \<^verbatim>\<open>refs\<close>, exactly once, whatever other windows are
  constructed or closed. Its close event then succeeds and removes it; after that it is
  not in \<^verbatim>\<open>refs\<close> and never comes back, and a second close event of the same window
  finds nothing to remove.
\<close>

theorem refs_lifecycle:
  fixes ops :: "'obj window_op list" and kwargs :: "(string, 'obj) dict"
  shows
  "let w = run_windows env ops initial_world;
       self = next_id w;
       w1 = fst (PandasGui_init env settings kwargs w)
   in self \<notin> set (refs w) \<and>
      (\<forall>g. snd (PandasGui_init env settings kwargs w) = Inr g \<longrightarrow> gid g = self) \<and>
      count_list (refs w1) self = 1 \<and>
      (\<forall>later :: 'obj window_op list. Close self \<notin> set later \<longrightarrow>
         count_list (refs (run_windows env later w1)) self = 1 \<and>
         (\<exists>w2. closeEvent self (run_windows env later w1) = Inr w2 \<and>
               self \<notin> set (refs w2) \<and>
               closeEvent self w2 = Inl ValueError \<and>
               (\<forall>after :: 'obj window_op list. self \<notin> set (refs (run_windows env after w2)))))"
proof -
  define w where "w = run_windows env ops initial_world"
  define self where "self = next_id w"
  define w1 where "w1 = fst (PandasGui_init env settings kwargs w)"
  have inv: "distinct (refs w)" "\<forall>x\<in>set (refs w). x < next_id w"
    using run_windows_refs_bound [of initial_world env ops]
    by (simp_all add: w_def initial_world_def)
  have fresh: "self \<notin> set (refs w)"
    using inv(2) by (auto simp: self_def)
  have gid: "gid g = self" if "snd (PandasGui_init env settings kwargs w) = Inr g" for g :: "'obj gui"
  proof (cases "apply_settings settings (default_settings env)")
    case (Inl e)
    with that show ?thesis by (simp add: PandasGui_init_failure)
  next
    case (Inr s)
    from PandasGui_init_success(1) [OF Inr, of kwargs w] that show ?thesis
      by (auto simp: self_def)
  qed
  have refs1: "refs w1 = refs w @ [self]" and next1: "next_id w1 = Suc self"
    by (simp_all add: w1_def self_def PandasGui_init_refs)
  have inv1: "distinct (refs w1)" "\<forall>x\<in>set (refs w1). x < next_id w1"
    using inv fresh by (auto simp: refs1 next1 self_def less_Suc_eq)
  have once: "count_list (refs w1) self = 1"
    using inv1(1) by (intro count_list_distinct) (simp_all add: refs1)
  have life: "count_list (refs (run_windows env later w1)) self = 1 \<and>
         (\<exists>w2. closeEvent self (run_windows env later w1) = Inr w2 \<and>
               self \<notin> set (refs w2) \<and>
               closeEvent self w2 = Inl ValueError \<and>
               (\<forall>after :: 'obj window_op list. self \<notin> set (refs (run_windows env after w2))))"
    if still: "Close self \<notin> set later" for later :: "'obj window_op list"
  proof -
    let ?w = "run_windows env later w1"
    have mem: "self \<in> set (refs ?w)"
      using still by (intro run_windows_keeps_open) (simp_all add: refs1)
    have d: "distinct (refs ?w)"
      using run_windows_refs_bound [OF inv1, of env later] by simp
    have cnt: "count_list (refs ?w) self = 1"
      using d mem by (rule count_list_distinct)
    let ?w2 = "?w\<lparr>refs := remove1 self (refs ?w)\<rparr>"
    have close: "closeEvent self ?w = Inr ?w2"
      using mem by (simp add: closeEvent_def)
    have out: "self \<notin> set (refs ?w2)"
      using d by simp
    have "self < next_id ?w"
      using run_windows_monotone [of w1 env later] by (simp add: next1)
    then have lt: "self < next_id ?w2" by simp
    have again: "closeEvent self ?w2 = Inl ValueError"
      using out by (simp add: closeEvent_def)
    have "\<forall>after :: 'obj window_op list. self \<notin> set (refs (run_windows env after ?w2))"
      using run_windows_stays_closed [OF out lt] by blast
    with cnt close out again show ?thesis by blast
  qed
  show ?thesis
    unfolding Let_def w_def [symmetric] self_def [symmetric] w1_def [symmetric]
    using fresh gid once life by blast
qed

theorem refs_lifecycle_witness:
  "Close 1 \<notin> set [Construct [] [] :: nat window_op] \<and>
   refs (run_windows demo_env [Construct [] [] :: nat window_op]
          (fst (PandasGui_init demo_env [] [(''x'', 2::nat)]
             (run_windows demo_env [Construct [] [(''df'', 1::nat)], Close 0] initial_world))))
     = [1, 2] \<and>
   count_list
     (refs (run_windows demo_env [Construct [] [] :: nat window_op]
          (fst (PandasGui_init demo_env [] [(''x'', 2::nat)]
             (run_windows demo_env [Construct [] [(''df'', 1::nat)], Close 0] initial_world))))) 1 = 1 \<and>
   (\<exists>w2. closeEvent 1
           (run_windows demo_env [Construct [] [] :: nat window_op]
             (fst (PandasGui_init demo_env [] [(''x'', 2::nat)]
               (run_windows demo_env [Construct [] [(''df'', 1::nat)], Close 0] initial_world))))
           = Inr w2 \<and> refs w2 = [2] \<and> closeEvent 1 w2 = Inl ValueError)"
proof -
  let ?w = "run_windows demo_env [Construct [] [(''df'', 1::nat)], Close 0] initial_world"
  let ?w1 = "fst (PandasGui_init demo_env [] [(''x'', 2::nat)] ?w)"
  let ?later = "[Construct [] [] :: nat window_op]"
  have w_refs: "refs ?w = []"
    by (simp add: run_windows_def PandasGui_init_refs closeEvent_def initial_world_def)
  have w_next: "next_id ?w = 1"
    by (simp add: run_windows_def PandasGui_init_refs closeEvent_def initial_world_def)
  note w = w_refs w_next
  have still: "Close 1 \<notin> set ?later" by simp
  have r: "refs (run_windows demo_env ?later ?w1) = [1, 2]"
    by (simp add: run_windows_def PandasGui_init_refs closeEvent_def initial_world_def)
  from refs_lifecycle [of demo_env "[Construct [] [(''df'', 1::nat)], Close 0]" "[]" "[(''x'', 2::nat)]"]
  have "\<forall>later :: nat window_op list. Close 1 \<notin> set later \<longrightarrow>
         count_list (refs (run_windows demo_env later ?w1)) 1 = 1 \<and>
         (\<exists>w2. closeEvent 1 (run_windows demo_env later ?w1) = Inr w2 \<and>
               1 \<notin> set (refs w2) \<and> closeEvent 1 w2 = Inl ValueError \<and>
               (\<forall>after :: nat window_op list. 1 \<notin> set (refs (run_windows demo_env after w2))))"
    unfolding Let_def w by blast
  with still obtain w2 where
    c: "count_list (refs (run_windows demo_env ?later ?w1)) 1 = 1"
    and w2: "closeEvent 1 (run_windows demo_env ?later ?w1) = Inr w2" "closeEvent 1 w2 = Inl ValueError"
    by blast
  from w2(1) r have "refs w2 = [2]"
    by (auto simp: closeEvent_def split: if_splits)
  with still r c w2 show ?thesis by blast
qed

section \<open>\<^verbatim>\<open>set_theme\<close>\<close>

text \<open>
  C10. For every theme name other than \<^verbatim>\<open>"classic"\<close>, \<^verbatim>\<open>"dark"\<close> and \<^verbatim>\<open>"light"\<close>,
  \<^verbatim>\<open>set_theme\<close> changes nothing: the window is as it was, so its style sheet and the stored
  theme setting are the ones from before the call.
\<close>

theorem set_theme_unknown_name:
  "nm \<notin> {''classic'', ''dark'', ''light''} \<Longrightarrow>
     set_theme env nm g = g \<and>
     stylesheet (set_theme env nm g) = stylesheet g \<and>
     theme_value (store_settings (store (set_theme env nm g))) = theme_value (store_settings (store g))"
  by (simp add: set_theme_def)

theorem set_theme_unknown_name_witness:
  "''solarized'' \<notin> {''classic'', ''dark'', ''light''} \<and>
   set_theme demo_env ''solarized''
     \<lparr>gid = 0, store = empty_store demo_settings :: nat store, stylesheet = dark_qss demo_env\<rparr>
   = \<lparr>gid = 0, store = empty_store demo_settings, stylesheet = dark_qss demo_env\<rparr>"
  using set_theme_unknown_name [of "''solarized''" demo_env
     "\<lparr>gid = 0, store = empty_store demo_settings :: nat store, stylesheet = dark_qss demo_env\<rparr>"]
  by simp

end
